theory Spec2Isabelle
  imports Main
begin

section \<open>Strings and the built-in string operations\<close>

text \<open>
  A JavaScript string is a sequence of code units. The model takes a string as a
  \<^typ>\<open>string\<close> whose characters are the code units \<open>0 .. 255\<close> (the Latin-1
  range), and writes out on that range what \<^verbatim>\<open>String.prototype.trim\<close> and
  \<^verbatim>\<open>String.prototype.toLowerCase\<close> do.

  \<^verbatim>\<open>trim\<close> removes white space and line terminators from both ends. In the range
  these are TAB, LF, VT, FF, CR, SPACE and NO-BREAK SPACE.

  The statements that hold for every input use two facts of these operations only:
  \<open>trim\<close> gives the empty string exactly on the strings made of white space, and
  \<open>toLowerCase\<close> of a non-empty string is not empty.
\<close>

definition isWhiteSpace :: "char \<Rightarrow> bool" where
  "isWhiteSpace c = (of_char c \<in> set [9, 10, 11, 12, 13, 32, 160 :: nat])"

definition trim :: "string \<Rightarrow> string" where
  "trim s = rev (dropWhile isWhiteSpace (rev (dropWhile isWhiteSpace s)))"

text \<open>
  \<^verbatim>\<open>toLowerCase\<close> maps each code unit to its lower-case form: \<open>A .. Z\<close>, and the
  Latin-1 capitals \<open>0xC0 .. 0xDE\<close> without the multiplication sign \<open>0xD7\<close>, move up
  by 32; every other code unit of the range stays.
\<close>

definition lowerCaseUnit :: "char \<Rightarrow> char" where
  "lowerCaseUnit c =
     (let n = (of_char c :: nat) in
      if (65 \<le> n \<and> n \<le> 90) \<or> (192 \<le> n \<and> n \<le> 222 \<and> n \<noteq> 215)
      then char_of (n + 32) else c)"

definition toLowerCase :: "string \<Rightarrow> string" where
  "toLowerCase s = map lowerCaseUnit s"

text \<open>
  A template literal \<^verbatim>\<open>`${page}`\<close> writes a page number in decimal, without
  leading zeros.
\<close>

definition digitUnit :: "nat \<Rightarrow> char" where
  "digitUnit d = char_of (48 + d)"

function numberToString :: "nat \<Rightarrow> string" where
  "numberToString n =
     (if n < 10 then [digitUnit n]
      else numberToString (n div 10) @ [digitUnit (n mod 10)])"
  by pat_completeness auto
termination
  by (relation "measure (\<lambda>n. n)") auto

declare numberToString.simps [simp del]

section \<open>The data model of \<^verbatim>\<open>sequence-resolution.ts\<close>\<close>

text \<open>
  \<^verbatim>\<open>
  export type BentoSequence = {
    id: string;
    attributes?: { name?: string };
  };
  \<close>
  An optional field is an \<^typ>\<open>'a option\<close>, \<open>None\<close> for \<^verbatim>\<open>undefined\<close>. The
  field \<^verbatim>\<open>id\<close> is \<open>seq_id\<close> here, since \<open>id\<close> is HOL's identity function.
\<close>

record attributes =
  name :: "string option"

record BentoSequence =
  seq_id :: string
  attributes :: "attributes option"

text \<open>
  What one call of \<^verbatim>\<open>getSequences\<close> resolves to:
  \<^verbatim>\<open>BentoSequence[] | null | undefined\<close>.
\<close>

datatype fetched = Null | Undefined | Sequences "BentoSequence list"

text \<open>
  \<^verbatim>\<open>getSequences\<close> is an injected asynchronous function. It may read and change
  anything outside the resolver (the world \<open>'w\<close>: a remote service, a recording
  array), and its promise either resolves to a \<^typ>\<open>fetched\<close> value (\<open>Inr\<close>) or
  rejects with some value of type \<open>'e\<close> (\<open>Inl\<close>).
\<close>

type_synonym ('w, 'e) GetSequences = "nat \<Rightarrow> 'w \<Rightarrow> ('e + fetched) \<times> 'w"

text \<open>
  The state a resolution runs in: the world of the fetcher, and the log of the calls
  of \<^verbatim>\<open>getSequences\<close> made so far, each with the page number passed and what the
  call settled to. The log is what the statements about "which pages were fetched"
  speak of; the code does not read it.
\<close>

record ('w, 'e) run_state =
  world :: 'w
  calls :: "(nat \<times> ('e + fetched)) list"

text \<open>\<^verbatim>\<open>await getSequences({ page })\<close>: the one place the fetcher is called.\<close>

definition await_getSequences ::
  "('w, 'e) GetSequences \<Rightarrow> nat \<Rightarrow> ('w, 'e) run_state \<Rightarrow> ('e + fetched) \<times> ('w, 'e) run_state" where
  "await_getSequences getSequences page st =
     (case getSequences page (world st) of
        (settled, w') \<Rightarrow> (settled, \<lparr>world = w', calls = calls st @ [(page, settled)]\<rparr>))"

section \<open>The resolver\<close>

definition MAX_SEQUENCE_PAGES :: nat where
  "MAX_SEQUENCE_PAGES = 100"

text \<open>
  \<^verbatim>\<open>
  function normalizeName(value: string | undefined): string | null {
    const trimmed = value?.trim();
    if (!trimmed) { return null; }
    return trimmed.toLowerCase();
  }
  \<close>
  \<^verbatim>\<open>!trimmed\<close> holds for \<^verbatim>\<open>undefined\<close> and for the empty string.
\<close>

definition normalizeName :: "string option \<Rightarrow> string option" where
  "normalizeName v =
     (case map_option trim v of
        None \<Rightarrow> None
      | Some trimmed \<Rightarrow> if trimmed = [] then None else Some (toLowerCase trimmed))"

text \<open>\<^verbatim>\<open>sequence.attributes?.name\<close>\<close>

definition attributes_name :: "BentoSequence \<Rightarrow> string option" where
  "attributes_name sequence =
     (case attributes sequence of None \<Rightarrow> None | Some a \<Rightarrow> name a)"

text \<open>
  The predicate of \<^verbatim>\<open>sequences.find\<close>:
  \<^verbatim>\<open>normalizeName(sequence.attributes?.name) === normalizedSequenceName\<close>, a strict
  equality of a \<^verbatim>\<open>string | null\<close> with the string \<open>normalizedSequenceName\<close>.
\<close>

definition nameMatches :: "string \<Rightarrow> BentoSequence \<Rightarrow> bool" where
  "nameMatches normalizedSequenceName sequence =
     (normalizeName (attributes_name sequence) = Some normalizedSequenceName)"

text \<open>
  The loop
  \<^verbatim>\<open>
  let page = 1;
  while (page <= MAX_SEQUENCE_PAGES) {
    const sequences = await getSequences({ page });
    if (!sequences || sequences.length === 0) { return null; }
    const match = sequences.find(...);
    if (match) { return match.id; }
    page += 1;
  }
  return null;
  \<close>
  from the value \<open>page\<close> on. The result is \<open>Inl e\<close> when the awaited call rejects with
  \<open>e\<close> (nothing catches it), \<open>Inr None\<close> for \<^verbatim>\<open>null\<close> and \<open>Inr (Some i)\<close> for the
  string \<open>i\<close>.
\<close>

function searchPages ::
  "('w, 'e) GetSequences \<Rightarrow> string \<Rightarrow> nat \<Rightarrow> ('w, 'e) run_state
     \<Rightarrow> ('e + string option) \<times> ('w, 'e) run_state" where
  "searchPages getSequences normalizedSequenceName page st =
     (if page \<le> MAX_SEQUENCE_PAGES then
        (case await_getSequences getSequences page st of
           (Inl e, st') \<Rightarrow> (Inl e, st')
         | (Inr Null, st') \<Rightarrow> (Inr None, st')
         | (Inr Undefined, st') \<Rightarrow> (Inr None, st')
         | (Inr (Sequences sequences), st') \<Rightarrow>
             if length sequences = 0 then (Inr None, st')
             else
               (case find (nameMatches normalizedSequenceName) sequences of
                  Some match \<Rightarrow> (Inr (Some (seq_id match)), st')
                | None \<Rightarrow> searchPages getSequences normalizedSequenceName (page + 1) st'))
      else (Inr None, st))"
  by pat_completeness auto
termination
  by (relation "measure (\<lambda>(g, t, page, st). Suc MAX_SEQUENCE_PAGES - page)") auto

declare searchPages.simps [simp del]

text \<open>
  The part of \<^verbatim>\<open>resolveSequenceId\<close> after the fast path:
  \<^verbatim>\<open>
  const normalizedSequenceName = normalizeName(sequenceName);
  if (!normalizedSequenceName) { return null; }
  \<close>
  and then the loop from page 1.
\<close>

definition resolveByName ::
  "string option \<Rightarrow> ('w, 'e) GetSequences \<Rightarrow> ('w, 'e) run_state
     \<Rightarrow> ('e + string option) \<times> ('w, 'e) run_state" where
  "resolveByName sequenceName getSequences st =
     (case normalizeName sequenceName of
        None \<Rightarrow> (Inr None, st)
      | Some normalizedSequenceName \<Rightarrow>
          if normalizedSequenceName = [] then (Inr None, st)
          else searchPages getSequences normalizedSequenceName 1 st)"

text \<open>
  \<^verbatim>\<open>
  const normalizedSequenceId = sequenceId?.trim();
  if (normalizedSequenceId) { return normalizedSequenceId; }
  \<close>
  A call starts with an empty log, in the world \<open>w\<close> it is made in.
\<close>

definition resolveSequenceId ::
  "string option \<Rightarrow> string option \<Rightarrow> ('w, 'e) GetSequences \<Rightarrow> 'w
     \<Rightarrow> ('e + string option) \<times> ('w, 'e) run_state" where
  "resolveSequenceId sequenceId sequenceName getSequences w =
     (let st = \<lparr>world = w, calls = []\<rparr> in
      case map_option trim sequenceId of
        None \<Rightarrow> resolveByName sequenceName getSequences st
      | Some normalizedSequenceId \<Rightarrow>
          if normalizedSequenceId \<noteq> [] then (Inr (Some normalizedSequenceId), st)
          else resolveByName sequenceName getSequences st)"

section \<open>The test doubles of \<^verbatim>\<open>tests/fixtures/sequences-pagination.ts\<close> and of the tests\<close>

text \<open>\<^verbatim>\<open>type PagedSequences = Record<number, BentoSequence[]>\<close>\<close>

type_synonym PagedSequences = "nat \<rightharpoonup> BentoSequence list"

text \<open>
  A read of a property an object does not have gives \<^verbatim>\<open>undefined\<close>, and a method
  call on \<^verbatim>\<open>undefined\<close> throws a \<^verbatim>\<open>TypeError\<close>.
\<close>

datatype js_error = TypeError

text \<open>
  \<^verbatim>\<open>
  for (let page = 1; page <= matchPage; page += 1) {
    pages[page] = [
      { id: `sequence_${page}_a`, attributes: { name: `Sequence ${page} A` } },
      { id: `sequence_${page}_b`, attributes: { name: `Sequence ${page} B` } },
    ];
  }
  \<close>
\<close>

function fillPages :: "nat \<Rightarrow> nat \<Rightarrow> PagedSequences \<Rightarrow> PagedSequences" where
  "fillPages matchPage page pages =
     (if page \<le> matchPage then
        fillPages matchPage (page + 1)
          (pages(page \<mapsto>
             [\<lparr>seq_id = ''sequence_'' @ numberToString page @ ''_a'',
               attributes = Some \<lparr>name = Some (''Sequence '' @ numberToString page @ '' A'')\<rparr>\<rparr>,
              \<lparr>seq_id = ''sequence_'' @ numberToString page @ ''_b'',
               attributes = Some \<lparr>name = Some (''Sequence '' @ numberToString page @ '' B'')\<rparr>\<rparr>]))
      else pages)"
  by pat_completeness auto
termination
  by (relation "measure (\<lambda>(matchPage, page, pages). Suc matchPage - page)") auto

declare fillPages.simps [simp del]

text \<open>
  \<^verbatim>\<open>
  pages[matchPage].push({
    id: `sequence_match_page_${matchPage}`,
    attributes: { name: matchName },
  });
  return pages;
  \<close>
\<close>

definition createPagesWithMatchOnPage :: "nat \<Rightarrow> string \<Rightarrow> js_error + PagedSequences" where
  "createPagesWithMatchOnPage matchPage matchName =
     (let pages = fillPages matchPage 1 Map.empty in
      case pages matchPage of
        None \<Rightarrow> Inl TypeError
      | Some entries \<Rightarrow>
          Inr (pages(matchPage \<mapsto>
                 entries @
                 [\<lparr>seq_id = ''sequence_match_page_'' @ numberToString matchPage,
                   attributes = Some \<lparr>name = Some matchName\<rparr>\<rparr>])))"

definition createNearMatchThenExactPages :: PagedSequences where
  "createNearMatchThenExactPages =
     [1 \<mapsto> [\<lparr>seq_id = ''sequence_near_match'',
                attributes = Some \<lparr>name = Some ''Welcome Flow Extended''\<rparr>\<rparr>],
      2 \<mapsto> [\<lparr>seq_id = ''sequence_exact_match'',
                attributes = Some \<lparr>name = Some ''  WELCOME FLOW  ''\<rparr>\<rparr>]]"

definition createNoMatchPages :: PagedSequences where
  "createNoMatchPages =
     [1 \<mapsto> [\<lparr>seq_id = ''sequence_first'',
                attributes = Some \<lparr>name = Some ''Welcome Sequence''\<rparr>\<rparr>],
      2 \<mapsto> [\<lparr>seq_id = ''sequence_second'',
                attributes = Some \<lparr>name = Some ''Post Purchase''\<rparr>\<rparr>],
      3 \<mapsto> [\<lparr>seq_id = ''sequence_third'',
                attributes = Some \<lparr>name = Some ''Newsletter''\<rparr>\<rparr>]]"

text \<open>
  \<^verbatim>\<open>
  function buildGetSequencesFromPages(pages) {
    const requestedPages: number[] = [];
    return {
      requestedPages,
      getSequences: async ({ page }) => {
        requestedPages.push(page);
        return pages[page] ?? [];
      },
    };
  }
  \<close>
  The world of this fetcher is the array \<open>requestedPages\<close>, empty when the fetcher is
  built.
\<close>

definition buildGetSequencesFromPages :: "PagedSequences \<Rightarrow> (nat list, 'e) GetSequences" where
  "buildGetSequencesFromPages pages page requestedPages =
     (Inr (Sequences (case pages page of Some entries \<Rightarrow> entries | None \<Rightarrow> [])),
      requestedPages @ [page])"

text \<open>
  The fetcher of the test "returns null after max pagination limit when API never
  exhausts pages":
  \<^verbatim>\<open>
  const getSequences = async ({ page }) => {
    requestedPages.push(page);
    return [{ id: `sequence_${page}`, attributes: { name: `Sequence ${page}` } }];
  };
  \<close>
\<close>

definition neverExhaustedGetSequences :: "(nat list, 'e) GetSequences" where
  "neverExhaustedGetSequences page requestedPages =
     (Inr (Sequences
        [\<lparr>seq_id = ''sequence_'' @ numberToString page,
          attributes = Some \<lparr>name = Some (''Sequence '' @ numberToString page)\<rparr>\<rparr>]),
      requestedPages @ [page])"

section \<open>Runs of the loop as a relation\<close>

text \<open>
  \<open>trace getSequences target page evs out\<close>: the loop, entered with the page number
  \<open>page\<close>, can make exactly the calls \<open>evs\<close> (page number and settled value, in
  order) and end with \<open>out\<close>. Each rule is one way through the loop body; every
  settled value is one that \<open>getSequences\<close> gives for that page in some world.
\<close>

inductive trace ::
  "('w, 'e) GetSequences \<Rightarrow> string \<Rightarrow> nat \<Rightarrow> (nat \<times> ('e + fetched)) list
     \<Rightarrow> ('e + string option) \<Rightarrow> bool"
  for getSequences :: "('w, 'e) GetSequences" and target :: string where
  ceiling:
    "MAX_SEQUENCE_PAGES < page \<Longrightarrow> trace getSequences target page [] (Inr None)"
| rejected:
    "page \<le> MAX_SEQUENCE_PAGES \<Longrightarrow> fst (getSequences page w) = Inl e
       \<Longrightarrow> trace getSequences target page [(page, Inl e)] (Inl e)"
| exhausted:
    "page \<le> MAX_SEQUENCE_PAGES \<Longrightarrow> fst (getSequences page w) = Inr r
       \<Longrightarrow> r = Null \<or> r = Undefined \<or> r = Sequences []
       \<Longrightarrow> trace getSequences target page [(page, Inr r)] (Inr None)"
| found:
    "page \<le> MAX_SEQUENCE_PAGES \<Longrightarrow> fst (getSequences page w) = Inr (Sequences xs)
       \<Longrightarrow> xs \<noteq> [] \<Longrightarrow> find (nameMatches target) xs = Some m
       \<Longrightarrow> trace getSequences target page [(page, Inr (Sequences xs))] (Inr (Some (seq_id m)))"
| advance:
    "page \<le> MAX_SEQUENCE_PAGES \<Longrightarrow> fst (getSequences page w) = Inr (Sequences xs)
       \<Longrightarrow> xs \<noteq> [] \<Longrightarrow> find (nameMatches target) xs = None
       \<Longrightarrow> trace getSequences target (page + 1) evs out
       \<Longrightarrow> trace getSequences target page ((page, Inr (Sequences xs)) # evs) out"

section \<open>The loop follows the relation\<close>

lemma searchPages_trace:
  "searchPages g t page st = (out, st') \<Longrightarrow>
     \<exists>evs. calls st' = calls st @ evs \<and> trace g t page evs out"
proof (induction g t page st arbitrary: out st' rule: searchPages.induct)
  case (1 g t page st)
  show ?case
  proof (cases "page \<le> MAX_SEQUENCE_PAGES")
    case False
    with "1.prems" have "out = Inr None" "st' = st"
      by (simp_all add: searchPages.simps)
    with False show ?thesis
      by (auto intro: trace.ceiling)
  next
    case le: True
    obtain r w' where g: "g page (world st) = (r, w')"
      by (cases "g page (world st)")
    define st1 where "st1 = \<lparr>world = w', calls = calls st @ [(page, r)]\<rparr>"
    have aw: "await_getSequences g page st = (r, st1)"
      by (simp add: await_getSequences_def g st1_def)
    have fstg: "fst (g page (world st)) = r"
      by (simp add: g)
    show ?thesis
    proof (cases r)
      case (Inl e)
      with "1.prems" le aw have "out = Inl e" "st' = st1"
        by (simp_all add: searchPages.simps)
      with le fstg Inl show ?thesis
        by (auto simp: st1_def intro: trace.rejected)
    next
      case (Inr f)
      show ?thesis
      proof (cases "f = Null \<or> f = Undefined \<or> f = Sequences []")
        case True
        with "1.prems" le aw Inr have "out = Inr None" "st' = st1"
          by (auto simp: searchPages.simps)
        with le fstg Inr True show ?thesis
          by (auto simp: st1_def intro: trace.exhausted)
      next
        case False
        then obtain xs where f: "f = Sequences xs" and ne: "xs \<noteq> []"
          by (cases f) auto
        show ?thesis
        proof (cases "find (nameMatches t) xs")
          case (Some m)
          with "1.prems" le aw Inr f ne have "out = Inr (Some (seq_id m))" "st' = st1"
            by (simp_all add: searchPages.simps)
          with le fstg Inr f ne Some show ?thesis
            by (auto simp: st1_def intro: trace.found)
        next
          case None
          with "1.prems" le aw Inr f ne
          have rec: "searchPages g t (page + 1) st1 = (out, st')"
            by (simp add: searchPages.simps)
          have "\<exists>evs. calls st' = calls st1 @ evs \<and> trace g t (page + 1) evs out"
            using "1.IH" [OF le aw [symmetric] Inr f _ None rec] ne by simp
          then obtain evs where "calls st' = calls st1 @ evs" "trace g t (page + 1) evs out"
            by blast
          with le fstg Inr f ne None show ?thesis
            by (auto simp: st1_def intro: trace.advance)
        qed
      qed
    qed
  qed
qed

section \<open>Facts about the string operations\<close>

lemma trim_eq_Nil_iff: "trim s = [] \<longleftrightarrow> (\<forall>c\<in>set s. isWhiteSpace c)"
proof
  assume "trim s = []"
  then have all: "\<forall>c\<in>set (dropWhile isWhiteSpace s). isWhiteSpace c"
    by (simp add: trim_def)
  have "dropWhile isWhiteSpace s = []"
  proof (rule ccontr)
    assume ne: "dropWhile isWhiteSpace s \<noteq> []"
    then have "\<not> isWhiteSpace (hd (dropWhile isWhiteSpace s))"
      by (rule hd_dropWhile)
    moreover from ne have "hd (dropWhile isWhiteSpace s) \<in> set (dropWhile isWhiteSpace s)"
      by simp
    ultimately show False
      using all by blast
  qed
  then show "\<forall>c\<in>set s. isWhiteSpace c"
    by simp
next
  assume "\<forall>c\<in>set s. isWhiteSpace c"
  then have d: "dropWhile isWhiteSpace s = []"
    by simp
  show "trim s = []"
    unfolding trim_def d by simp
qed

lemma normalizeName_eq_None_iff:
  "normalizeName v = None \<longleftrightarrow> (v = None \<or> (\<exists>s. v = Some s \<and> trim s = []))"
  by (cases v) (simp_all add: normalizeName_def)

lemma normalizeName_Some_nonempty: "normalizeName v = Some t \<Longrightarrow> t \<noteq> []"
  by (cases v) (auto simp: normalizeName_def toLowerCase_def split: if_splits)

lemma trim_Cons_not_white:
  assumes "\<not> isWhiteSpace c"
  shows "\<exists>r. trim (c # s) = c # r"
proof -
  have "dropWhile isWhiteSpace (rev s @ [c]) = [c] \<or>
        dropWhile isWhiteSpace (rev s @ [c]) = dropWhile isWhiteSpace (rev s) @ [c]"
    using assms by (simp add: dropWhile_append)
  then have "rev (dropWhile isWhiteSpace (rev s @ [c])) = [c] \<or>
             rev (dropWhile isWhiteSpace (rev s @ [c])) = c # rev (dropWhile isWhiteSpace (rev s))"
    by auto
  then have "\<exists>r. rev (dropWhile isWhiteSpace (rev s @ [c])) = c # r"
    by blast
  with assms show ?thesis
    by (simp add: trim_def)
qed

lemma normalizeName_Cons_not_white:
  assumes "\<not> isWhiteSpace c"
  shows "\<exists>r. normalizeName (Some (c # s)) = Some (lowerCaseUnit c # r)"
proof -
  from assms obtain r where "trim (c # s) = c # r"
    using trim_Cons_not_white by blast
  then show ?thesis
    by (simp add: normalizeName_def toLowerCase_def)
qed

section \<open>The two paths of \<^verbatim>\<open>resolveSequenceId\<close>\<close>

lemma resolveSequenceId_fast:
  "trim s \<noteq> [] \<Longrightarrow>
     resolveSequenceId (Some s) nm g w = (Inr (Some (trim s)), \<lparr>world = w, calls = []\<rparr>)"
  by (simp add: resolveSequenceId_def)

lemma resolveSequenceId_by_name:
  "sid = None \<or> (\<exists>s. sid = Some s \<and> trim s = []) \<Longrightarrow>
     resolveSequenceId sid nm g w = resolveByName nm g \<lparr>world = w, calls = []\<rparr>"
  by (auto simp: resolveSequenceId_def)

lemma resolveByName_blank:
  "normalizeName nm = None \<Longrightarrow> resolveByName nm g st = (Inr None, st)"
  by (simp add: resolveByName_def)

lemma resolveByName_search:
  "normalizeName nm = Some t \<Longrightarrow> resolveByName nm g st = searchPages g t 1 st"
  by (auto simp: resolveByName_def dest: normalizeName_Some_nonempty)

text \<open>Every run is: no call at all, or a trace of the loop from page 1.\<close>

lemma resolveSequenceId_run:
  assumes "resolveSequenceId sid nm g w = (out, st)"
  shows "(calls st = [] \<and> (\<exists>v. out = Inr v)) \<or>
         ((sid = None \<or> (\<exists>s. sid = Some s \<and> trim s = [])) \<and>
          (\<exists>t. normalizeName nm = Some t \<and> trace g t 1 (calls st) out))"
proof (cases "sid = None \<or> (\<exists>s. sid = Some s \<and> trim s = [])")
  case False
  then obtain s where "sid = Some s" "trim s \<noteq> []"
    by (cases sid) auto
  with assms show ?thesis
    by (auto simp: resolveSequenceId_fast)
next
  case blank: True
  then have by_name: "resolveByName nm g \<lparr>world = w, calls = []\<rparr> = (out, st)"
    using assms by (simp add: resolveSequenceId_by_name)
  show ?thesis
  proof (cases "normalizeName nm")
    case None
    with by_name show ?thesis
      by (auto simp: resolveByName_blank)
  next
    case (Some t)
    with by_name have "searchPages g t 1 \<lparr>world = w, calls = []\<rparr> = (out, st)"
      by (simp add: resolveByName_search)
    then have "trace g t 1 (calls st) out"
      by (auto dest: searchPages_trace)
    with blank Some show ?thesis
      by blast
  qed
qed

section \<open>What a trace looks like\<close>

lemma find_Some_first:
  "find P xs = Some m \<Longrightarrow>
     \<exists>before later. xs = before @ m # later \<and> (\<forall>y\<in>set before. \<not> P y) \<and> P m"
proof (induction xs)
  case Nil
  then show ?case by simp
next
  case (Cons x xs)
  show ?case
  proof (cases "P x")
    case True
    with Cons.prems have "x = m" by simp
    with True have "x # xs = [] @ m # xs \<and> (\<forall>y\<in>set []. \<not> P y) \<and> P m"
      by simp
    then show ?thesis by blast
  next
    case False
    with Cons obtain before later where
      "xs = before @ m # later" "\<forall>y\<in>set before. \<not> P y" "P m"
      by auto
    with False have "x # xs = (x # before) @ m # later \<and> (\<forall>y\<in>set (x # before). \<not> P y) \<and> P m"
      by simp
    then show ?thesis by blast
  qed
qed

lemma trace_pages:
  "trace g t page evs out \<Longrightarrow> map fst evs = [page..<page + length evs]"
  by (induction rule: trace.induct) (simp_all add: upt_rec)

lemma trace_length:
  "trace g t page evs out \<Longrightarrow> evs = [] \<or> page + length evs \<le> Suc MAX_SEQUENCE_PAGES"
  by (induction rule: trace.induct) auto

lemma trace_match_last:
  "trace g t page evs out \<Longrightarrow> (p, Inr (Sequences xs)) \<in> set evs \<Longrightarrow>
   \<exists>x\<in>set xs. nameMatches t x \<Longrightarrow>
     \<exists>earlier m. evs = earlier @ [(p, Inr (Sequences xs))] \<and>
       (\<forall>ev\<in>set earlier. \<exists>ys. snd ev = Inr (Sequences ys) \<and> ys \<noteq> [] \<and>
                               (\<forall>y\<in>set ys. \<not> nameMatches t y)) \<and>
       find (nameMatches t) xs = Some m \<and> out = Inr (Some (seq_id m))"
proof (induction rule: trace.induct)
  case (advance page w ys evs out)
  from advance.hyps(4) have nomatch: "\<forall>y\<in>set ys. \<not> nameMatches t y"
    by (simp add: find_None_iff)
  with advance.prems have "(p, Inr (Sequences xs)) \<in> set evs"
    by auto
  with advance.IH advance.prems obtain earlier m where
    "evs = earlier @ [(p, Inr (Sequences xs))]"
    "\<forall>ev\<in>set earlier. \<exists>zs. snd ev = Inr (Sequences zs) \<and> zs \<noteq> [] \<and>
                               (\<forall>y\<in>set zs. \<not> nameMatches t y)"
    "find (nameMatches t) xs = Some m" "out = Inr (Some (seq_id m))"
    by blast
  with nomatch advance.hyps(3) have
    "(page, Inr (Sequences ys)) # evs = ((page, Inr (Sequences ys)) # earlier) @ [(p, Inr (Sequences xs))] \<and>
     (\<forall>ev\<in>set ((page, Inr (Sequences ys)) # earlier). \<exists>zs. snd ev = Inr (Sequences zs) \<and> zs \<noteq> [] \<and>
                               (\<forall>y\<in>set zs. \<not> nameMatches t y)) \<and>
     find (nameMatches t) xs = Some m \<and> out = Inr (Some (seq_id m))"
    by simp
  then show ?case by blast
qed auto

lemma trace_exhausted_last:
  "trace g t page evs out \<Longrightarrow> (p, Inr r) \<in> set evs \<Longrightarrow>
   r = Null \<or> r = Undefined \<or> r = Sequences [] \<Longrightarrow>
     \<exists>earlier. evs = earlier @ [(p, Inr r)] \<and> out = Inr None"
proof (induction rule: trace.induct)
  case (advance page w ys evs out)
  then have "(p, Inr r) \<in> set evs"
    by auto
  with advance.IH advance.prems obtain earlier where
    "evs = earlier @ [(p, Inr r)]" "out = Inr None"
    by blast
  then have "(page, Inr (Sequences ys)) # evs = ((page, Inr (Sequences ys)) # earlier) @ [(p, Inr r)] \<and> out = Inr None"
    by simp
  then show ?case by blast
qed auto

lemma trace_rejected_last:
  "trace g t page evs out \<Longrightarrow> (p, Inl e) \<in> set evs \<Longrightarrow>
     \<exists>earlier. evs = earlier @ [(p, Inl e)] \<and> out = Inl e"
proof (induction rule: trace.induct)
  case (advance page w ys evs out)
  then have "(p, Inl e) \<in> set evs"
    by auto
  with advance.IH obtain earlier where
    "evs = earlier @ [(p, Inl e)]" "out = Inl e"
    by blast
  then have "(page, Inr (Sequences ys)) # evs = ((page, Inr (Sequences ys)) # earlier) @ [(p, Inl e)] \<and> out = Inl e"
    by simp
  then show ?case by blast
qed auto

lemma trace_never_exhausted:
  assumes "trace g t page evs out"
      and "\<forall>p w. \<exists>xs. fst (g p w) = Inr (Sequences xs) \<and> xs \<noteq> [] \<and>
                       (\<forall>x\<in>set xs. \<not> nameMatches t x)"
      and "page \<le> Suc MAX_SEQUENCE_PAGES"
  shows "map fst evs = [page..<Suc MAX_SEQUENCE_PAGES] \<and> out = Inr None"
  using assms
proof (induction rule: trace.induct)
  case (ceiling page)
  then show ?case by simp
next
  case (rejected page w e)
  from rejected.prems(1) obtain xs where "fst (g page w) = Inr (Sequences xs)"
    by blast
  with rejected.hyps show ?case by simp
next
  case (exhausted page w r)
  from exhausted.prems(1) obtain xs where "fst (g page w) = Inr (Sequences xs)" "xs \<noteq> []"
    by blast
  with exhausted.hyps show ?case by auto
next
  case (found page w xs m)
  from found.prems(1) obtain ys where "fst (g page w) = Inr (Sequences ys)"
    "\<forall>x\<in>set ys. \<not> nameMatches t x"
    by blast
  with found.hyps have none: "\<forall>x\<in>set xs. \<not> nameMatches t x"
    by simp
  from found.hyps(4) have "m \<in> set xs \<and> nameMatches t m"
    by (auto simp: find_Some_iff)
  with none show ?case by blast
next
  case (advance page w xs evs out)
  then have "map fst evs = [page + 1..<Suc MAX_SEQUENCE_PAGES] \<and> out = Inr None"
    by simp
  with advance.hyps(1) show ?case
    by (simp add: upt_rec [of page])
qed

lemma trace_provenance:
  "trace g t page evs out \<Longrightarrow> out = Inr (Some v) \<Longrightarrow>
     \<exists>p xs m. (p, Inr (Sequences xs)) \<in> set evs \<and> m \<in> set xs \<and> seq_id m = v \<and>
       nameMatches t m"
proof (induction rule: trace.induct)
  case (found page w xs m)
  from found.hyps(4) have "m \<in> set xs \<and> nameMatches t m"
    by (auto simp: find_Some_iff)
  with found.prems show ?case
    by auto
next
  case (advance page w xs evs out)
  then show ?case
    by (meson list.set_intros(2))
qed auto

lemma trace_determ:
  assumes "trace g t page evs out" and "trace g t page evs' out'"
      and det: "\<forall>p w w'. fst (g p w) = fst (g p w')"
  shows "evs' = evs \<and> out' = out"
  using assms(1,2)
proof (induction arbitrary: evs' out' rule: trace.induct)
  case (ceiling page)
  from ceiling.prems ceiling.hyps show ?case
    by (cases rule: trace.cases) auto
next
  case (rejected page w e)
  from rejected.prems show ?case
  proof (cases rule: trace.cases)
    case ceiling with rejected.hyps show ?thesis by simp
  next
    case (rejected w' e') with rejected.hyps det [rule_format, of page w w'] show ?thesis by simp
  next
    case (exhausted w' r) with rejected.hyps det [rule_format, of page w w'] show ?thesis by simp
  next
    case (found w' xs m) with rejected.hyps det [rule_format, of page w w'] show ?thesis by simp
  next
    case (advance w' xs evs) with rejected.hyps det [rule_format, of page w w'] show ?thesis by simp
  qed
next
  case (exhausted page w r)
  from exhausted.prems show ?case
  proof (cases rule: trace.cases)
    case ceiling with exhausted.hyps show ?thesis by simp
  next
    case (rejected w' e') with exhausted.hyps det [rule_format, of page w w'] show ?thesis by simp
  next
    case (exhausted w' r') with exhausted.hyps det [rule_format, of page w w'] show ?thesis by simp
  next
    case (found w' xs m) with exhausted.hyps det [rule_format, of page w w'] show ?thesis by auto
  next
    case (advance w' xs evs) with exhausted.hyps det [rule_format, of page w w'] show ?thesis by auto
  qed
next
  case (found page w xs m)
  from found.prems show ?case
  proof (cases rule: trace.cases)
    case ceiling with found.hyps show ?thesis by simp
  next
    case (rejected w' e') with found.hyps det [rule_format, of page w w'] show ?thesis by simp
  next
    case (exhausted w' r') with found.hyps det [rule_format, of page w w'] show ?thesis by auto
  next
    case (found w' xs' m') with found.hyps det [rule_format, of page w w'] show ?thesis by auto
  next
    case (advance w' xs' evs) with found.hyps det [rule_format, of page w w'] show ?thesis by auto
  qed
next
  case (advance page w xs evs out)
  from advance.prems show ?case
  proof (cases rule: trace.cases)
    case ceiling with advance.hyps show ?thesis by simp
  next
    case (rejected w' e') with advance.hyps det [rule_format, of page w w'] show ?thesis by simp
  next
    case (exhausted w' r') with advance.hyps det [rule_format, of page w w'] show ?thesis by auto
  next
    case (found w' xs' m') with advance.hyps det [rule_format, of page w w'] show ?thesis by auto
  next
    case adv: (advance w' xs' evs'')
    with advance.hyps det [rule_format, of page w w'] have "xs' = xs"
      by simp
    moreover from adv advance.IH have "evs'' = evs \<and> out' = out"
      by blast
    ultimately show ?thesis
      using adv by simp
  qed
qed

text \<open>
  Skipping the pages that, whatever the world, hold entities but no match: the loop
  asks for each of them in turn and goes on from the first page after them.
\<close>

lemma trace_skip:
  assumes "trace g t page evs out"
      and "page \<le> m"
      and "\<forall>p w. page \<le> p \<and> p < m \<longrightarrow>
             (\<exists>xs. fst (g p w) = Inr (Sequences xs) \<and> xs \<noteq> [] \<and>
                   (\<forall>x\<in>set xs. \<not> nameMatches t x))"
      and "m \<le> Suc MAX_SEQUENCE_PAGES"
  shows "\<exists>front rest. evs = front @ rest \<and> map fst front = [page..<m] \<and>
           trace g t m rest out"
  using assms
proof (induction rule: trace.induct)
  case (ceiling page)
  then have "page = m" by simp
  with ceiling.hyps have "trace g t m [] (Inr None)"
    by (auto intro: trace.ceiling)
  with \<open>page = m\<close> show ?case by simp
next
  case (rejected page w e)
  show ?case
  proof (cases "page = m")
    case True
    with rejected.hyps have "trace g t m [(page, Inl e)] (Inl e)"
      by (auto intro: trace.rejected)
    with True show ?thesis by simp
  next
    case False
    with rejected.prems obtain xs where "fst (g page w) = Inr (Sequences xs)"
      by (metis le_neq_implies_less order_refl)
    with rejected.hyps show ?thesis by simp
  qed
next
  case (exhausted page w r)
  show ?case
  proof (cases "page = m")
    case True
    with exhausted.hyps have "trace g t m [(page, Inr r)] (Inr None)"
      by (auto intro: trace.exhausted)
    with True show ?thesis by simp
  next
    case False
    with exhausted.prems obtain xs where "fst (g page w) = Inr (Sequences xs)" "xs \<noteq> []"
      by (metis le_neq_implies_less order_refl)
    with exhausted.hyps show ?thesis by auto
  qed
next
  case (found page w xs mt)
  show ?case
  proof (cases "page = m")
    case True
    with found.hyps have "trace g t m [(page, Inr (Sequences xs))] (Inr (Some (seq_id mt)))"
      by (auto intro: trace.found)
    with True show ?thesis by simp
  next
    case False
    with found.prems obtain ys where "fst (g page w) = Inr (Sequences ys)"
      "\<forall>x\<in>set ys. \<not> nameMatches t x"
      by (metis le_neq_implies_less order_refl)
    with found.hyps have none: "\<forall>x\<in>set xs. \<not> nameMatches t x"
      by simp
    from found.hyps(4) have "mt \<in> set xs \<and> nameMatches t mt"
      by (auto simp: find_Some_iff)
    with none show ?thesis by blast
  qed
next
  case (advance page w xs evs out)
  show ?case
  proof (cases "page = m")
    case True
    with advance.hyps have "trace g t m ((page, Inr (Sequences xs)) # evs) out"
      by (auto intro: trace.advance)
    with True show ?thesis by simp
  next
    case False
    with advance.prems have lt: "page < m" by simp
    with advance.prems advance.IH obtain front rest where
      fr: "evs = front @ rest" "map fst front = [page + 1..<m]" "trace g t m rest out"
      by auto
    from lt fr have
      "(page, Inr (Sequences xs)) # evs = ((page, Inr (Sequences xs)) # front) @ rest \<and>
       map fst ((page, Inr (Sequences xs)) # front) = [page..<m] \<and> trace g t m rest out"
      by (simp add: upt_rec [of page])
    then show ?thesis by blast
  qed
qed

lemma trace_at_exhausted:
  assumes "trace g t m rest out" and "m \<le> MAX_SEQUENCE_PAGES"
      and "\<forall>w. fst (g m w) = Inr Null \<or> fst (g m w) = Inr Undefined \<or>
               fst (g m w) = Inr (Sequences [])"
  shows "\<exists>r. rest = [(m, Inr r)] \<and> (r = Null \<or> r = Undefined \<or> r = Sequences []) \<and>
             out = Inr None"
  using assms(1)
proof (cases rule: trace.cases)
  case ceiling
  with assms(2) show ?thesis by simp
next
  case (rejected w e)
  with assms(3) [rule_format, of w] show ?thesis by simp
next
  case (exhausted w r)
  then show ?thesis by blast
next
  case (found w xs mt)
  with assms(3) [rule_format, of w] show ?thesis by simp
next
  case (advance w xs evs)
  with assms(3) [rule_format, of w] show ?thesis by simp
qed

lemma trace_at_found:
  assumes "trace g t m rest out" and "m \<le> MAX_SEQUENCE_PAGES"
      and "\<forall>w. \<exists>xs. fst (g m w) = Inr (Sequences xs) \<and> (\<exists>x\<in>set xs. nameMatches t x)"
  shows "\<exists>xs mt. rest = [(m, Inr (Sequences xs))] \<and> mt \<in> set xs \<and> nameMatches t mt \<and>
                 out = Inr (Some (seq_id mt))"
  using assms(1)
proof (cases rule: trace.cases)
  case ceiling
  with assms(2) show ?thesis by simp
next
  case (rejected w e)
  with assms(3) [rule_format, of w] show ?thesis by auto
next
  case (exhausted w r)
  with assms(3) [rule_format, of w] show ?thesis by auto
next
  case (found w xs mt)
  from found have "mt \<in> set xs \<and> nameMatches t mt"
    by (auto simp: find_Some_iff)
  with found show ?thesis by blast
next
  case (advance w xs evs)
  from advance have "\<forall>x\<in>set xs. \<not> nameMatches t x"
    by (simp add: find_None_iff)
  with advance assms(3) [rule_format, of w] show ?thesis by auto
qed

section \<open>The pages of \<open>createPagesWithMatchOnPage\<close>\<close>

lemma fillPages_apply:
  "fillPages matchPage page pages p =
     (if page \<le> p \<and> p \<le> matchPage then
        Some [\<lparr>seq_id = ''sequence_'' @ numberToString p @ ''_a'',
               attributes = Some \<lparr>name = Some (''Sequence '' @ numberToString p @ '' A'')\<rparr>\<rparr>,
              \<lparr>seq_id = ''sequence_'' @ numberToString p @ ''_b'',
               attributes = Some \<lparr>name = Some (''Sequence '' @ numberToString p @ '' B'')\<rparr>\<rparr>]
      else pages p)"
proof (induction matchPage page pages rule: fillPages.induct)
  case (1 matchPage page pages)
  let ?F = "\<lambda>p. [\<lparr>seq_id = ''sequence_'' @ numberToString p @ ''_a'',
               attributes = Some \<lparr>name = Some (''Sequence '' @ numberToString p @ '' A'')\<rparr>\<rparr>,
              \<lparr>seq_id = ''sequence_'' @ numberToString p @ ''_b'',
               attributes = Some \<lparr>name = Some (''Sequence '' @ numberToString p @ '' B'')\<rparr>\<rparr>]"
  show ?case
  proof (cases "page \<le> matchPage")
    case True
    have step: "fillPages matchPage page pages =
        fillPages matchPage (page + 1) (pages(page \<mapsto> ?F page))"
      using True by (subst fillPages.simps) simp
    have ih: "fillPages matchPage (page + 1) (pages(page \<mapsto> ?F page)) p =
        (if page + 1 \<le> p \<and> p \<le> matchPage then Some (?F p)
         else (pages(page \<mapsto> ?F page)) p)"
      using "1.IH" [OF True] .
    show ?thesis
    proof (cases "p = page")
      case same: True
      with True ih show ?thesis
        unfolding step by (simp only: fun_upd_same) simp
    next
      case False
      with True ih show ?thesis
        unfolding step by (simp only: fun_upd_other) auto
    qed
  next
    case False
    have "fillPages matchPage page pages = pages"
      using False by (subst fillPages.simps) simp
    with False show ?thesis
      by auto
  qed
qed

section \<open>The claims\<close>

text \<open>
  C1 (fast path). Whenever \<open>sequenceId\<close> is non-empty after trimming,
  \<open>resolveSequenceId\<close> returns the trimmed id, the log of calls of the fetcher is
  empty and the world is untouched, whatever \<open>sequenceName\<close> and the fetcher are.
\<close>

theorem fast_path:
  assumes "trim s \<noteq> []"
  shows "resolveSequenceId (Some s) sequenceName getSequences w =
           (Inr (Some (trim s)), \<lparr>world = w, calls = []\<rparr>)"
  using assms by (simp add: resolveSequenceId_def)

theorem fast_path_witness:
  "trim ''  sequence_abc123  '' \<noteq> [] \<and>
   resolveSequenceId (Some ''  sequence_abc123  '') (Some ''welcome flow'')
       (buildGetSequencesFromPages createNearMatchThenExactPages) [] =
     (Inr (Some ''sequence_abc123''), \<lparr>world = [], calls = []\<rparr>)"
proof -
  have t: "trim ''  sequence_abc123  '' = ''sequence_abc123''"
    by code_simp
  then have ne: "trim ''  sequence_abc123  '' \<noteq> []"
    by simp
  show ?thesis
    using ne fast_path [OF ne, of "Some ''welcome flow''"
        "buildGetSequencesFromPages createNearMatchThenExactPages" "[]"]
    by (simp add: t)
qed

text \<open>
  C2 (empty-input short-circuit). When \<open>sequenceId\<close> is absent or trims to the empty
  string, and \<open>sequenceName\<close> is absent, empty or made of white space only,
  \<open>resolveSequenceId\<close> returns \<^verbatim>\<open>null\<close> and the fetcher is not called.
\<close>

theorem empty_input_short_circuit:
  assumes "sequenceId = None \<or> (\<exists>s. sequenceId = Some s \<and> trim s = [])"
      and "sequenceName = None \<or> (\<exists>n. sequenceName = Some n \<and> list_all isWhiteSpace n)"
  shows "resolveSequenceId sequenceId sequenceName getSequences w =
           (Inr None, \<lparr>world = w, calls = []\<rparr>)"
proof -
  from assms(2) have "normalizeName sequenceName = None"
    by (auto simp: normalizeName_eq_None_iff trim_eq_Nil_iff list_all_iff)
  with assms(1) show ?thesis
    by (simp add: resolveSequenceId_by_name resolveByName_blank)
qed

theorem empty_input_short_circuit_witness:
  "trim ''   '' = [] \<and> list_all isWhiteSpace '' '' \<and>
   resolveSequenceId (Some ''   '') (Some '' '')
       (buildGetSequencesFromPages createNoMatchPages) [] =
     (Inr None, \<lparr>world = [], calls = []\<rparr>) \<and>
   resolveSequenceId None None
       (buildGetSequencesFromPages createNoMatchPages) [] =
     (Inr None, \<lparr>world = [], calls = []\<rparr>) \<and>
   resolveSequenceId None (Some [])
       (buildGetSequencesFromPages createNoMatchPages) [] =
     (Inr None, \<lparr>world = [], calls = []\<rparr>)"
proof -
  have t: "trim ''   '' = []"
    by code_simp
  have ws: "list_all isWhiteSpace '' ''"
    by code_simp
  show ?thesis
    using t ws
      empty_input_short_circuit [of "Some ''   ''" "Some '' ''"
        "buildGetSequencesFromPages createNoMatchPages" "[]"]
      empty_input_short_circuit [of None None
        "buildGetSequencesFromPages createNoMatchPages" "[]"]
      empty_input_short_circuit [of None "Some []"
        "buildGetSequencesFromPages createNoMatchPages" "[]"]
    by simp
qed

text \<open>
  C3 (exact match only). The name of an entity matches a target exactly when the
  name, trimmed and then lower-cased, is the same string as the target, trimmed and
  then lower-cased (and is not empty); a name that only contains the target does not
  match. With the two pages of
  \<open>createNearMatchThenExactPages\<close> (page 1 holds "Welcome Flow Extended", page 2
  holds "  WELCOME FLOW  ") and the name "welcome flow", \<open>resolveSequenceId\<close>
  returns the id of the entity of page 2, and has called the fetcher for page 1 and
  then page 2, and for no other page.
\<close>

theorem exact_match_only:
  "(nameMatches (toLowerCase (trim target))
       \<lparr>seq_id = i, attributes = Some \<lparr>name = Some n\<rparr>\<rparr> \<longleftrightarrow>
     trim n \<noteq> [] \<and> toLowerCase (trim n) = toLowerCase (trim target))
   \<and>
   (normalizeName (Some ''welcome flow'') = Some ''welcome flow'' \<and>
    normalizeName (Some ''Welcome Flow Extended'') = Some ''welcome flow extended'' \<and>
    normalizeName (Some ''  WELCOME FLOW  '') = Some ''welcome flow'' \<and>
    \<not> nameMatches ''welcome flow''
        \<lparr>seq_id = ''sequence_near_match'',
         attributes = Some \<lparr>name = Some ''Welcome Flow Extended''\<rparr>\<rparr> \<and>
    nameMatches ''welcome flow''
        \<lparr>seq_id = ''sequence_exact_match'',
         attributes = Some \<lparr>name = Some ''  WELCOME FLOW  ''\<rparr>\<rparr> \<and>
    resolveSequenceId None (Some ''welcome flow'')
        (buildGetSequencesFromPages createNearMatchThenExactPages
           :: (nat list, js_error) GetSequences) [] =
      (Inr (Some ''sequence_exact_match''),
       \<lparr>world = [1, 2],
        calls =
          [(1, Inr (Sequences
                  [\<lparr>seq_id = ''sequence_near_match'',
                    attributes = Some \<lparr>name = Some ''Welcome Flow Extended''\<rparr>\<rparr>])),
           (2, Inr (Sequences
                  [\<lparr>seq_id = ''sequence_exact_match'',
                    attributes = Some \<lparr>name = Some ''  WELCOME FLOW  ''\<rparr>\<rparr>]))]\<rparr>))"
proof (rule conjI)
  show "nameMatches (toLowerCase (trim target))
       \<lparr>seq_id = i, attributes = Some \<lparr>name = Some n\<rparr>\<rparr> \<longleftrightarrow>
     trim n \<noteq> [] \<and> toLowerCase (trim n) = toLowerCase (trim target)"
    by (simp add: nameMatches_def normalizeName_def attributes_name_def)
next
  show "normalizeName (Some ''welcome flow'') = Some ''welcome flow'' \<and>
    normalizeName (Some ''Welcome Flow Extended'') = Some ''welcome flow extended'' \<and>
    normalizeName (Some ''  WELCOME FLOW  '') = Some ''welcome flow'' \<and>
    \<not> nameMatches ''welcome flow''
        \<lparr>seq_id = ''sequence_near_match'',
         attributes = Some \<lparr>name = Some ''Welcome Flow Extended''\<rparr>\<rparr> \<and>
    nameMatches ''welcome flow''
        \<lparr>seq_id = ''sequence_exact_match'',
         attributes = Some \<lparr>name = Some ''  WELCOME FLOW  ''\<rparr>\<rparr> \<and>
    resolveSequenceId None (Some ''welcome flow'')
        (buildGetSequencesFromPages createNearMatchThenExactPages
           :: (nat list, js_error) GetSequences) [] =
      (Inr (Some ''sequence_exact_match''),
       \<lparr>world = [1, 2],
        calls =
          [(1, Inr (Sequences
                  [\<lparr>seq_id = ''sequence_near_match'',
                    attributes = Some \<lparr>name = Some ''Welcome Flow Extended''\<rparr>\<rparr>])),
           (2, Inr (Sequences
                  [\<lparr>seq_id = ''sequence_exact_match'',
                    attributes = Some \<lparr>name = Some ''  WELCOME FLOW  ''\<rparr>\<rparr>]))]\<rparr>)"
    by code_simp
qed

text \<open>
  C4 (first match). Whenever a fetched page holds an entity whose normalized name is
  the normalized target, that page is the last one fetched, no page fetched before it
  held a match, and the result is the id of the first matching entity of the page,
  in the order of the page: entities after it, matching or not, play no part, and the
  result is an id, never a failure.
\<close>

theorem first_match_wins:
  assumes run: "resolveSequenceId sequenceId sequenceName getSequences w = (out, st)"
      and fetched: "(page, Inr (Sequences xs)) \<in> set (calls st)"
      and some: "\<exists>x\<in>set xs. normalizeName (attributes_name x) = normalizeName sequenceName"
  shows "\<exists>earlier before m later.
           calls st = earlier @ [(page, Inr (Sequences xs))] \<and>
           (\<forall>ev\<in>set earlier. \<exists>ys. snd ev = Inr (Sequences ys) \<and>
              (\<forall>y\<in>set ys. normalizeName (attributes_name y) \<noteq> normalizeName sequenceName)) \<and>
           xs = before @ m # later \<and>
           (\<forall>y\<in>set before. normalizeName (attributes_name y) \<noteq> normalizeName sequenceName) \<and>
           normalizeName (attributes_name m) = normalizeName sequenceName \<and>
           out = Inr (Some (seq_id m))"
proof -
  from fetched have "calls st \<noteq> []"
    by auto
  with resolveSequenceId_run [OF run] obtain t where
    t: "normalizeName sequenceName = Some t" and tr: "trace getSequences t 1 (calls st) out"
    by blast
  from some t have "\<exists>x\<in>set xs. nameMatches t x"
    by (simp add: nameMatches_def)
  with trace_match_last [OF tr fetched] obtain earlier m where
    last: "calls st = earlier @ [(page, Inr (Sequences xs))]" and
    pass: "\<forall>ev\<in>set earlier. \<exists>ys. snd ev = Inr (Sequences ys) \<and> ys \<noteq> [] \<and>
                               (\<forall>y\<in>set ys. \<not> nameMatches t y)" and
    m: "find (nameMatches t) xs = Some m" and out: "out = Inr (Some (seq_id m))"
    by blast
  from find_Some_first [OF m] obtain before later where
    split: "xs = before @ m # later" "\<forall>y\<in>set before. \<not> nameMatches t y" "nameMatches t m"
    by blast
  from pass t have pass':
    "\<forall>ev\<in>set earlier. \<exists>ys. snd ev = Inr (Sequences ys) \<and>
       (\<forall>y\<in>set ys. normalizeName (attributes_name y) \<noteq> normalizeName sequenceName)"
    by (fastforce simp: nameMatches_def)
  from split t have
    "(\<forall>y\<in>set before. normalizeName (attributes_name y) \<noteq> normalizeName sequenceName) \<and>
     normalizeName (attributes_name m) = normalizeName sequenceName"
    by (simp add: nameMatches_def)
  with last pass' split(1) out show ?thesis
    by blast
qed

theorem first_match_wins_witness:
  "\<exists>st m.
     resolveSequenceId None (Some ''Welcome'')
       (buildGetSequencesFromPages
          [1 \<mapsto> [\<lparr>seq_id = ''a'', attributes = None\<rparr>],
           2 \<mapsto> [\<lparr>seq_id = ''b'', attributes = Some \<lparr>name = Some ''other''\<rparr>\<rparr>,
                   \<lparr>seq_id = ''c'', attributes = Some \<lparr>name = Some '' WELCOME ''\<rparr>\<rparr>,
                   \<lparr>seq_id = ''d'', attributes = Some \<lparr>name = Some ''welcome''\<rparr>\<rparr>],
           3 \<mapsto> [\<lparr>seq_id = ''e'', attributes = Some \<lparr>name = Some ''welcome''\<rparr>\<rparr>]]
          :: (nat list, js_error) GetSequences) [] =
       (Inr (Some (seq_id m)), st) \<and>
     map fst (calls st) = [1, 2] \<and> world st = [1, 2] \<and> seq_id m = ''c'' \<and>
     normalizeName (attributes_name m) = normalizeName (Some ''Welcome'')"
proof -
  let ?page2 = "[\<lparr>seq_id = ''b'', attributes = Some \<lparr>name = Some ''other''\<rparr>\<rparr>,
                 \<lparr>seq_id = ''c'', attributes = Some \<lparr>name = Some '' WELCOME ''\<rparr>\<rparr>,
                 \<lparr>seq_id = ''d'', attributes = Some \<lparr>name = Some ''welcome''\<rparr>\<rparr>]"
  let ?g = "buildGetSequencesFromPages
          [1 \<mapsto> [\<lparr>seq_id = ''a'', attributes = None\<rparr>],
           2 \<mapsto> ?page2,
           3 \<mapsto> [\<lparr>seq_id = ''e'', attributes = Some \<lparr>name = Some ''welcome''\<rparr>\<rparr>]]
          :: (nat list, js_error) GetSequences"
  let ?st = "\<lparr>world = [1, 2 :: nat],
       calls = [(1, Inr (Sequences [\<lparr>seq_id = ''a'', attributes = None\<rparr>])),
                (2, Inr (Sequences ?page2) :: js_error + fetched)]\<rparr>"
  have run: "resolveSequenceId None (Some ''Welcome'') ?g [] = (Inr (Some ''c''), ?st)"
    by code_simp
  have fetched: "(2, Inr (Sequences ?page2)) \<in> set (calls ?st)"
    by simp
  have some: "\<exists>x\<in>set ?page2. normalizeName (attributes_name x) = normalizeName (Some ''Welcome'')"
    by code_simp
  from first_match_wins [OF run fetched some] obtain m where
    c: "normalizeName (attributes_name m) = normalizeName (Some ''Welcome'')" and
    d: "(Inr (Some ''c'') :: js_error + string option) = Inr (Some (seq_id m))"
    by blast
  from d have id: "seq_id m = ''c''"
    by simp
  have "resolveSequenceId None (Some ''Welcome'') ?g [] = (Inr (Some (seq_id m)), ?st) \<and>
     map fst (calls ?st) = [1, 2] \<and> world ?st = [1, 2] \<and> seq_id m = ''c'' \<and>
     normalizeName (attributes_name m) = normalizeName (Some ''Welcome'')"
    using run c id by simp
  then show ?thesis
    by - (rule exI, rule exI, assumption)
qed

text \<open>
  C5 (exhaustion). A call of the fetcher that settles to \<^verbatim>\<open>null\<close>,
  \<^verbatim>\<open>undefined\<close> or an empty page is the last call of the run, and the run returns
  \<^verbatim>\<open>null\<close>. In particular, when pages 1, 2 and 3 hold entities but no match and
  page 4 is absent or empty, the run returns \<^verbatim>\<open>null\<close> after the calls for pages
  1, 2, 3 and 4, in this order.
\<close>

theorem exhaustion:
  "(resolveSequenceId sequenceId sequenceName getSequences w = (out, st) \<and>
    (page, Inr r) \<in> set (calls st) \<and> (r = Null \<or> r = Undefined \<or> r = Sequences [])
      \<longrightarrow> (\<exists>earlier. calls st = earlier @ [(page, Inr r)]) \<and> out = Inr None)
   \<and>
   ((sequenceId = None \<or> (\<exists>s. sequenceId = Some s \<and> trim s = [])) \<and>
    normalizeName sequenceName \<noteq> None \<and>
    (\<forall>p w'. 1 \<le> p \<and> p < 4 \<longrightarrow>
       (\<exists>xs. fst (getSequences p w') = Inr (Sequences xs) \<and> xs \<noteq> [] \<and>
          (\<forall>x\<in>set xs. normalizeName (attributes_name x) \<noteq> normalizeName sequenceName))) \<and>
    (\<forall>w'. fst (getSequences 4 w') = Inr Null \<or> fst (getSequences 4 w') = Inr Undefined \<or>
          fst (getSequences 4 w') = Inr (Sequences []))
      \<longrightarrow> fst (resolveSequenceId sequenceId sequenceName getSequences w) = Inr None \<and>
          map fst (calls (snd (resolveSequenceId sequenceId sequenceName getSequences w))) =
            [1, 2, 3, 4])"
proof (intro conjI impI)
  assume a: "resolveSequenceId sequenceId sequenceName getSequences w = (out, st) \<and>
    (page, Inr r) \<in> set (calls st) \<and> (r = Null \<or> r = Undefined \<or> r = Sequences [])"
  then have "calls st \<noteq> []"
    by auto
  with a resolveSequenceId_run [of sequenceId sequenceName getSequences w out st]
  obtain t where "trace getSequences t 1 (calls st) out"
    by blast
  from trace_exhausted_last [OF this] a
  have "\<exists>earlier. calls st = earlier @ [(page, Inr r)] \<and> out = Inr None"
    by blast
  then show "\<exists>earlier. calls st = earlier @ [(page, Inr r)]" and "out = Inr None"
    by blast+
next
  assume b: "(sequenceId = None \<or> (\<exists>s. sequenceId = Some s \<and> trim s = [])) \<and>
    normalizeName sequenceName \<noteq> None \<and>
    (\<forall>p w'. 1 \<le> p \<and> p < 4 \<longrightarrow>
       (\<exists>xs. fst (getSequences p w') = Inr (Sequences xs) \<and> xs \<noteq> [] \<and>
          (\<forall>x\<in>set xs. normalizeName (attributes_name x) \<noteq> normalizeName sequenceName))) \<and>
    (\<forall>w'. fst (getSequences 4 w') = Inr Null \<or> fst (getSequences 4 w') = Inr Undefined \<or>
          fst (getSequences 4 w') = Inr (Sequences []))"
  obtain out st where run: "resolveSequenceId sequenceId sequenceName getSequences w = (out, st)"
    by (cases "resolveSequenceId sequenceId sequenceName getSequences w")
  from b obtain t where t: "normalizeName sequenceName = Some t"
    by auto
  from b have blank: "sequenceId = None \<or> (\<exists>s. sequenceId = Some s \<and> trim s = [])"
    by blast
  from run blank t have "searchPages getSequences t 1 \<lparr>world = w, calls = []\<rparr> = (out, st)"
    by (simp add: resolveSequenceId_by_name resolveByName_search)
  then have tr: "trace getSequences t 1 (calls st) out"
    by (auto dest: searchPages_trace)
  from b t have pass: "\<forall>p w'. 1 \<le> p \<and> p < 4 \<longrightarrow>
       (\<exists>xs. fst (getSequences p w') = Inr (Sequences xs) \<and> xs \<noteq> [] \<and>
          (\<forall>x\<in>set xs. \<not> nameMatches t x))"
    by (simp add: nameMatches_def)
  from trace_skip [OF tr _ pass] obtain front rest where
    fr: "calls st = front @ rest" "map fst front = [1..<4]" "trace getSequences t 4 rest out"
    by (auto simp: MAX_SEQUENCE_PAGES_def)
  from b have "\<forall>w'. fst (getSequences 4 w') = Inr Null \<or> fst (getSequences 4 w') = Inr Undefined \<or>
          fst (getSequences 4 w') = Inr (Sequences [])"
    by blast
  from trace_at_exhausted [OF fr(3) _ this] obtain r' where
    "rest = [(4, Inr r')]" "out = Inr None"
    by (auto simp: MAX_SEQUENCE_PAGES_def)
  with fr have "out = Inr None \<and> map fst (calls st) = [1, 2, 3, 4]"
    by (simp add: upt_rec)
  with run show "fst (resolveSequenceId sequenceId sequenceName getSequences w) = Inr None"
    and "map fst (calls (snd (resolveSequenceId sequenceId sequenceName getSequences w))) =
            [1, 2, 3, 4]"
    by simp_all
qed

theorem exhaustion_witness:
  "fst (resolveSequenceId None (Some ''does not exist'')
          (buildGetSequencesFromPages createNoMatchPages :: (nat list, js_error) GetSequences) []) =
     Inr None \<and>
   map fst (calls (snd (resolveSequenceId None (Some ''does not exist'')
          (buildGetSequencesFromPages createNoMatchPages :: (nat list, js_error) GetSequences) []))) =
     [1, 2, 3, 4] \<and>
   (\<exists>earlier. calls (snd (resolveSequenceId None (Some ''does not exist'')
          (buildGetSequencesFromPages createNoMatchPages :: (nat list, js_error) GetSequences) [])) =
     earlier @ [(4, Inr (Sequences []))])"
proof -
  let ?g = "buildGetSequencesFromPages createNoMatchPages :: (nat list, js_error) GetSequences"
  let ?nm = "Some ''does not exist''"
  let ?st = "\<lparr>world = [1, 2, 3, 4 :: nat],
              calls = [(1 :: nat, Inr (Sequences (the (createNoMatchPages 1))) :: js_error + fetched),
                       (2, Inr (Sequences (the (createNoMatchPages 2)))),
                       (3, Inr (Sequences (the (createNoMatchPages 3)))),
                       (4, Inr (Sequences []))]\<rparr>"
  have run: "resolveSequenceId None ?nm ?g [] = (Inr None, ?st)"
    by code_simp
  have usable: "normalizeName ?nm \<noteq> None"
    by code_simp
  have p1: "list_all (\<lambda>x. normalizeName (attributes_name x) \<noteq> normalizeName ?nm)
              (the (createNoMatchPages 1)) \<and> the (createNoMatchPages 1) \<noteq> [] \<and>
            createNoMatchPages 1 \<noteq> None"
    by code_simp
  have p2: "list_all (\<lambda>x. normalizeName (attributes_name x) \<noteq> normalizeName ?nm)
              (the (createNoMatchPages 2)) \<and> the (createNoMatchPages 2) \<noteq> [] \<and>
            createNoMatchPages 2 \<noteq> None"
    by code_simp
  have p3: "list_all (\<lambda>x. normalizeName (attributes_name x) \<noteq> normalizeName ?nm)
              (the (createNoMatchPages 3)) \<and> the (createNoMatchPages 3) \<noteq> [] \<and>
            createNoMatchPages 3 \<noteq> None"
    by code_simp
  have pass: "\<forall>p w'. 1 \<le> p \<and> p < 4 \<longrightarrow>
       (\<exists>xs. fst (?g p w') = Inr (Sequences xs) \<and> xs \<noteq> [] \<and>
          (\<forall>x\<in>set xs. normalizeName (attributes_name x) \<noteq> normalizeName ?nm))"
  proof (intro allI impI)
    fix p :: nat and w' :: "nat list"
    assume "1 \<le> p \<and> p < 4"
    then have "p = 1 \<or> p = 2 \<or> p = 3"
      by arith
    with p1 p2 p3 show "\<exists>xs. fst (?g p w') = Inr (Sequences xs) \<and> xs \<noteq> [] \<and>
          (\<forall>x\<in>set xs. normalizeName (attributes_name x) \<noteq> normalizeName ?nm)"
      by (auto simp: buildGetSequencesFromPages_def list_all_iff)
  qed
  have p4: "createNoMatchPages 4 = None"
    by code_simp
  then have empty: "\<forall>w'. fst (?g 4 w') = Inr Null \<or> fst (?g 4 w') = Inr Undefined \<or>
          fst (?g 4 w') = Inr (Sequences [])"
    by (simp add: buildGetSequencesFromPages_def)
  note ex = exhaustion [of None ?nm ?g "[]" "Inr None" ?st 4 "Sequences []"]
  from ex usable pass empty
  have res: "fst (resolveSequenceId None ?nm ?g []) = Inr None"
    and pages: "map fst (calls (snd (resolveSequenceId None ?nm ?g []))) = [1, 2, 3, 4]"
    by blast+
  have mem: "(4, Inr (Sequences [])) \<in> set (calls ?st)"
    by simp
  from ex run mem have "\<exists>earlier. calls ?st = earlier @ [(4, Inr (Sequences []))]"
    by blast
  with run have "\<exists>earlier. calls (snd (resolveSequenceId None ?nm ?g [])) =
      earlier @ [(4, Inr (Sequences []))]"
    by simp
  with res pages show ?thesis
    by (intro conjI)
qed

text \<open>
  C6 (ceiling bound and termination). For a search by name (no usable id, a usable
  name) with a fetcher that, for every page and in every world, gives a non-empty page
  with no matching entity, \<open>resolveSequenceId\<close> calls the fetcher for the pages
  1, 2, ..., 100 in this order, returns \<^verbatim>\<open>null\<close>, and never asks for page 101.
  For every input and every fetcher, a run makes at most 100 calls of the fetcher.
  (\<open>resolveSequenceId\<close> is a total function: given that each call of the fetcher
  settles, each run ends.)
\<close>

theorem ceiling_bound:
  "((sequenceId = None \<or> (\<exists>s. sequenceId = Some s \<and> trim s = [])) \<and>
    normalizeName sequenceName \<noteq> None \<and>
    (\<forall>p w'. \<exists>xs. fst (getSequences p w') = Inr (Sequences xs) \<and> xs \<noteq> [] \<and>
          (\<forall>x\<in>set xs. normalizeName (attributes_name x) \<noteq> normalizeName sequenceName))
      \<longrightarrow> fst (resolveSequenceId sequenceId sequenceName getSequences w) = Inr None \<and>
          map fst (calls (snd (resolveSequenceId sequenceId sequenceName getSequences w))) =
            [1..<101] \<and>
          101 \<notin> fst ` set (calls (snd (resolveSequenceId sequenceId sequenceName getSequences w))))
   \<and>
   length (calls (snd (resolveSequenceId sequenceId sequenceName getSequences w))) \<le> 100"
proof -
  obtain out st where run: "resolveSequenceId sequenceId sequenceName getSequences w = (out, st)"
    by (cases "resolveSequenceId sequenceId sequenceName getSequences w")
  have bound: "length (calls st) \<le> 100"
  proof (cases "calls st = []")
    case True
    then show ?thesis by simp
  next
    case False
    with resolveSequenceId_run [OF run] obtain t where
      "trace getSequences t 1 (calls st) out"
      by blast
    from trace_length [OF this] False show ?thesis
      by (simp add: MAX_SEQUENCE_PAGES_def)
  qed
  have never: "out = Inr None \<and> map fst (calls st) = [1..<101] \<and> 101 \<notin> fst ` set (calls st)"
    if b: "(sequenceId = None \<or> (\<exists>s. sequenceId = Some s \<and> trim s = [])) \<and>
      normalizeName sequenceName \<noteq> None \<and>
      (\<forall>p w'. \<exists>xs. fst (getSequences p w') = Inr (Sequences xs) \<and> xs \<noteq> [] \<and>
          (\<forall>x\<in>set xs. normalizeName (attributes_name x) \<noteq> normalizeName sequenceName))"
  proof -
    from b obtain t where t: "normalizeName sequenceName = Some t"
      by auto
    from b have blank: "sequenceId = None \<or> (\<exists>s. sequenceId = Some s \<and> trim s = [])"
      by blast
    from run blank t have "searchPages getSequences t 1 \<lparr>world = w, calls = []\<rparr> = (out, st)"
      by (simp add: resolveSequenceId_by_name resolveByName_search)
    then have tr: "trace getSequences t 1 (calls st) out"
      by (auto dest: searchPages_trace)
    from b t have pass: "\<forall>p w'. \<exists>xs. fst (getSequences p w') = Inr (Sequences xs) \<and> xs \<noteq> [] \<and>
          (\<forall>x\<in>set xs. \<not> nameMatches t x)"
      by (simp add: nameMatches_def)
    from trace_never_exhausted [OF tr pass]
    have r: "map fst (calls st) = [1..<101]" "out = Inr None"
      by (simp_all add: MAX_SEQUENCE_PAGES_def)
    have "101 \<notin> set (map fst (calls st))"
      unfolding r by simp
    then have "101 \<notin> fst ` set (calls st)"
      by simp
    with r show ?thesis
      by blast
  qed
  from bound never run show ?thesis
    by simp
qed

theorem ceiling_bound_witness:
  "fst (resolveSequenceId None (Some ''does not exist'')
          (neverExhaustedGetSequences :: (nat list, js_error) GetSequences) []) = Inr None \<and>
   map fst (calls (snd (resolveSequenceId None (Some ''does not exist'')
          (neverExhaustedGetSequences :: (nat list, js_error) GetSequences) []))) = [1..<101] \<and>
   length (calls (snd (resolveSequenceId None (Some ''does not exist'')
          (neverExhaustedGetSequences :: (nat list, js_error) GetSequences) []))) \<le> 100 \<and>
   world (snd (resolveSequenceId None (Some ''does not exist'')
          (neverExhaustedGetSequences :: (nat list, js_error) GetSequences) [])) = [1..<101]"
proof -
  let ?g = "neverExhaustedGetSequences :: (nat list, js_error) GetSequences"
  let ?nm = "Some ''does not exist''"
  have target: "normalizeName ?nm = Some ''does not exist''"
    by code_simp
  have S: "\<not> isWhiteSpace CHR ''S''" "lowerCaseUnit CHR ''S'' = CHR ''s''"
    by code_simp+
  have pass: "\<forall>p w'. \<exists>xs. fst (?g p w') = Inr (Sequences xs) \<and> xs \<noteq> [] \<and>
          (\<forall>x\<in>set xs. normalizeName (attributes_name x) \<noteq> normalizeName ?nm)"
  proof (intro allI)
    fix p :: nat and w' :: "nat list"
    obtain r where "normalizeName (Some (CHR ''S'' # ''equence '' @ numberToString p)) =
        Some (lowerCaseUnit CHR ''S'' # r)"
      using normalizeName_Cons_not_white [OF S(1)] by blast
    then have "normalizeName (Some (''Sequence '' @ numberToString p)) \<noteq> normalizeName ?nm"
      by (simp add: target S(2))
    then show "\<exists>xs. fst (?g p w') = Inr (Sequences xs) \<and> xs \<noteq> [] \<and>
          (\<forall>x\<in>set xs. normalizeName (attributes_name x) \<noteq> normalizeName ?nm)"
      by (simp add: neverExhaustedGetSequences_def attributes_name_def)
  qed
  have usable: "normalizeName ?nm \<noteq> None"
    by (simp add: target)
  have w: "world (snd (resolveSequenceId None ?nm ?g [])) = [1..<101]"
    by code_simp
  from ceiling_bound [of None ?nm ?g "[]"] usable pass
  have "fst (resolveSequenceId None ?nm ?g []) = Inr None"
    "map fst (calls (snd (resolveSequenceId None ?nm ?g []))) = [1..<101]"
    "length (calls (snd (resolveSequenceId None ?nm ?g []))) \<le> 100"
    by blast+
  with w show ?thesis
    by (intro conjI)
qed

text \<open>
  C7 (sequential pagination). In every run the page numbers passed to the fetcher are
  \<open>1, 2, ..., k\<close> for some \<open>k \<le> 100\<close>: from 1, up by one, no page twice. In
  particular, in a search by name where every page before page \<open>m\<close> holds entities
  but no match and page \<open>m\<close> holds a match (page 11, say), the calls
  are for the pages \<open>1, ..., m\<close> in order, none after page \<open>m\<close>, and the result is
  the id of a matching entity of page \<open>m\<close>.
\<close>

theorem sequential_pagination:
  "(\<exists>k\<le>100. map fst (calls (snd (resolveSequenceId sequenceId sequenceName getSequences w))) =
              [1..<Suc k])
   \<and>
   ((sequenceId = None \<or> (\<exists>s. sequenceId = Some s \<and> trim s = [])) \<and>
    normalizeName sequenceName \<noteq> None \<and> 1 \<le> m \<and> m \<le> 100 \<and>
    (\<forall>p w'. 1 \<le> p \<and> p < m \<longrightarrow>
       (\<exists>xs. fst (getSequences p w') = Inr (Sequences xs) \<and> xs \<noteq> [] \<and>
          (\<forall>x\<in>set xs. normalizeName (attributes_name x) \<noteq> normalizeName sequenceName))) \<and>
    (\<forall>w'. \<exists>xs. fst (getSequences m w') = Inr (Sequences xs) \<and>
          (\<exists>x\<in>set xs. normalizeName (attributes_name x) = normalizeName sequenceName))
      \<longrightarrow> map fst (calls (snd (resolveSequenceId sequenceId sequenceName getSequences w))) =
            [1..<Suc m] \<and>
          (\<exists>xs mt. last (calls (snd (resolveSequenceId sequenceId sequenceName getSequences w))) =
                     (m, Inr (Sequences xs)) \<and>
                   mt \<in> set xs \<and>
                   normalizeName (attributes_name mt) = normalizeName sequenceName \<and>
                   fst (resolveSequenceId sequenceId sequenceName getSequences w) =
                     Inr (Some (seq_id mt))))"
proof -
  obtain out st where run: "resolveSequenceId sequenceId sequenceName getSequences w = (out, st)"
    by (cases "resolveSequenceId sequenceId sequenceName getSequences w")
  have order: "\<exists>k\<le>100. map fst (calls st) = [1..<Suc k]"
  proof (cases "calls st = []")
    case True
    then have "0 \<le> (100 :: nat) \<and> map fst (calls st) = [1..<Suc 0]"
      by simp
    then show ?thesis by blast
  next
    case False
    with resolveSequenceId_run [OF run] obtain t where
      tr: "trace getSequences t 1 (calls st) out"
      by blast
    from trace_length [OF tr] False have "length (calls st) \<le> 100"
      by (simp add: MAX_SEQUENCE_PAGES_def)
    moreover from trace_pages [OF tr] have "map fst (calls st) = [1..<Suc (length (calls st))]"
      by simp
    ultimately show ?thesis by blast
  qed
  have deep: "map fst (calls st) = [1..<Suc m] \<and>
      (\<exists>xs mt. last (calls st) = (m, Inr (Sequences xs)) \<and> mt \<in> set xs \<and>
         normalizeName (attributes_name mt) = normalizeName sequenceName \<and>
         out = Inr (Some (seq_id mt)))"
    if b: "(sequenceId = None \<or> (\<exists>s. sequenceId = Some s \<and> trim s = [])) \<and>
      normalizeName sequenceName \<noteq> None \<and> 1 \<le> m \<and> m \<le> 100 \<and>
      (\<forall>p w'. 1 \<le> p \<and> p < m \<longrightarrow>
         (\<exists>xs. fst (getSequences p w') = Inr (Sequences xs) \<and> xs \<noteq> [] \<and>
            (\<forall>x\<in>set xs. normalizeName (attributes_name x) \<noteq> normalizeName sequenceName))) \<and>
      (\<forall>w'. \<exists>xs. fst (getSequences m w') = Inr (Sequences xs) \<and>
            (\<exists>x\<in>set xs. normalizeName (attributes_name x) = normalizeName sequenceName))"
  proof -
    from b obtain t where t: "normalizeName sequenceName = Some t"
      by auto
    from b have blank: "sequenceId = None \<or> (\<exists>s. sequenceId = Some s \<and> trim s = [])"
      and m: "1 \<le> m" "m \<le> 100"
      by blast+
    from run blank t have "searchPages getSequences t 1 \<lparr>world = w, calls = []\<rparr> = (out, st)"
      by (simp add: resolveSequenceId_by_name resolveByName_search)
    then have tr: "trace getSequences t 1 (calls st) out"
      by (auto dest: searchPages_trace)
    from b t have pass: "\<forall>p w'. 1 \<le> p \<and> p < m \<longrightarrow>
         (\<exists>xs. fst (getSequences p w') = Inr (Sequences xs) \<and> xs \<noteq> [] \<and>
            (\<forall>x\<in>set xs. \<not> nameMatches t x))"
      by (simp add: nameMatches_def)
    from b t have hit: "\<forall>w'. \<exists>xs. fst (getSequences m w') = Inr (Sequences xs) \<and>
            (\<exists>x\<in>set xs. nameMatches t x)"
      by (simp add: nameMatches_def)
    from trace_skip [OF tr m(1) pass] m(2) obtain front rest where
      fr: "calls st = front @ rest" "map fst front = [1..<m]" "trace getSequences t m rest out"
      by (auto simp: MAX_SEQUENCE_PAGES_def)
    from trace_at_found [OF fr(3) _ hit] m(2) obtain xs mt where
      f: "rest = [(m, Inr (Sequences xs))]" "mt \<in> set xs" "nameMatches t mt"
         "out = Inr (Some (seq_id mt))"
      by (auto simp: MAX_SEQUENCE_PAGES_def)
    from fr f m(1) have "map fst (calls st) = [1..<Suc m]"
      by simp
    moreover from fr f have "last (calls st) = (m, Inr (Sequences xs))"
      by simp
    moreover from f t have "normalizeName (attributes_name mt) = normalizeName sequenceName"
      by (simp add: nameMatches_def)
    ultimately show ?thesis
      using f by blast
  qed
  from order deep run show ?thesis
    by simp
qed

theorem sequential_pagination_witness:
  "\<exists>pages.
     createPagesWithMatchOnPage 11 ''  Welcome Campaign  '' = Inr pages \<and>
     fst (resolveSequenceId None (Some ''welcome campaign'')
            (buildGetSequencesFromPages pages :: (nat list, js_error) GetSequences) []) =
       Inr (Some ''sequence_match_page_11'') \<and>
     map fst (calls (snd (resolveSequenceId None (Some ''welcome campaign'')
            (buildGetSequencesFromPages pages :: (nat list, js_error) GetSequences) []))) =
       [1, 2, 3, 4, 5, 6, 7, 8, 9, 10, 11] \<and>
     world (snd (resolveSequenceId None (Some ''welcome campaign'')
            (buildGetSequencesFromPages pages :: (nat list, js_error) GetSequences) [])) =
       [1, 2, 3, 4, 5, 6, 7, 8, 9, 10, 11]"
proof -
  let ?F = "\<lambda>p. [\<lparr>seq_id = ''sequence_'' @ numberToString p @ ''_a'',
               attributes = Some \<lparr>name = Some (''Sequence '' @ numberToString p @ '' A'')\<rparr>\<rparr>,
              \<lparr>seq_id = ''sequence_'' @ numberToString p @ ''_b'',
               attributes = Some \<lparr>name = Some (''Sequence '' @ numberToString p @ '' B'')\<rparr>\<rparr>]"
  let ?M = "\<lparr>seq_id = ''sequence_match_page_'' @ numberToString 11,
             attributes = Some \<lparr>name = Some ''  Welcome Campaign  ''\<rparr>\<rparr>"
  let ?pages = "(fillPages 11 1 Map.empty)(11 \<mapsto> ?F 11 @ [?M])"
  let ?g = "buildGetSequencesFromPages ?pages :: (nat list, js_error) GetSequences"
  let ?nm = "Some ''welcome campaign''"
  have created: "createPagesWithMatchOnPage 11 ''  Welcome Campaign  '' = Inr ?pages"
    by (simp add: createPagesWithMatchOnPage_def Let_def fillPages_apply)
  have target: "normalizeName ?nm = Some ''welcome campaign''"
    by code_simp
  have usable: "normalizeName ?nm \<noteq> None"
    by (simp add: target)
  have S: "\<not> isWhiteSpace CHR ''S''" "lowerCaseUnit CHR ''S'' = CHR ''s''"
    by code_simp+
  have filler: "normalizeName (Some (''Sequence '' @ rest)) \<noteq> normalizeName ?nm" for rest
  proof -
    obtain r where "normalizeName (Some (CHR ''S'' # ''equence '' @ rest)) =
        Some (lowerCaseUnit CHR ''S'' # r)"
      using normalizeName_Cons_not_white [OF S(1)] by blast
    then show ?thesis
      by (simp add: target S(2))
  qed
  have pass: "\<forall>p w'. 1 \<le> p \<and> p < 11 \<longrightarrow>
       (\<exists>xs. fst (?g p w') = Inr (Sequences xs) \<and> xs \<noteq> [] \<and>
          (\<forall>x\<in>set xs. normalizeName (attributes_name x) \<noteq> normalizeName ?nm))"
  proof (intro allI impI)
    fix p :: nat and w' :: "nat list"
    assume p: "1 \<le> p \<and> p < 11"
    then have "?pages p = Some (?F p)"
      by (simp add: fillPages_apply)
    then have "fst (?g p w') = Inr (Sequences (?F p))"
      by (simp only: buildGetSequencesFromPages_def fst_conv option.case)
    moreover have "\<forall>x\<in>set (?F p). normalizeName (attributes_name x) \<noteq> normalizeName ?nm"
      using filler by (simp add: attributes_name_def)
    ultimately show "\<exists>xs. fst (?g p w') = Inr (Sequences xs) \<and> xs \<noteq> [] \<and>
          (\<forall>x\<in>set xs. normalizeName (attributes_name x) \<noteq> normalizeName ?nm)"
      by blast
  qed
  have match: "normalizeName (attributes_name ?M) = normalizeName ?nm"
    by code_simp
  have hit: "\<forall>w'. \<exists>xs. fst (?g 11 w') = Inr (Sequences xs) \<and>
          (\<exists>x\<in>set xs. normalizeName (attributes_name x) = normalizeName ?nm)"
  proof
    fix w' :: "nat list"
    have "fst (?g 11 w') = Inr (Sequences (?F 11 @ [?M]))"
      by (simp only: buildGetSequencesFromPages_def fst_conv fun_upd_same option.case)
    moreover have "?M \<in> set (?F 11 @ [?M])"
      by simp
    ultimately show "\<exists>xs. fst (?g 11 w') = Inr (Sequences xs) \<and>
          (\<exists>x\<in>set xs. normalizeName (attributes_name x) = normalizeName ?nm)"
      using match by blast
  qed
  have order: "map fst (calls (snd (resolveSequenceId None ?nm ?g []))) = [1..<Suc 11]"
    using sequential_pagination [of None ?nm ?g "[]" 11] usable pass hit by simp
  have "[1..<Suc 11] = [1, 2, 3, 4, 5, 6, 7, 8, 9, 10, 11 :: nat]"
    by code_simp
  with order have pages: "map fst (calls (snd (resolveSequenceId None ?nm ?g []))) =
      [1, 2, 3, 4, 5, 6, 7, 8, 9, 10, 11]"
    by simp
  have result: "fst (resolveSequenceId None ?nm ?g []) = Inr (Some ''sequence_match_page_11'')"
    by code_simp
  have requested: "world (snd (resolveSequenceId None ?nm ?g [])) =
      [1, 2, 3, 4, 5, 6, 7, 8, 9, 10, 11]"
    by code_simp
  from created result pages requested have
    "createPagesWithMatchOnPage 11 ''  Welcome Campaign  '' = Inr ?pages \<and>
     fst (resolveSequenceId None ?nm ?g []) = Inr (Some ''sequence_match_page_11'') \<and>
     map fst (calls (snd (resolveSequenceId None ?nm ?g []))) =
       [1, 2, 3, 4, 5, 6, 7, 8, 9, 10, 11] \<and>
     world (snd (resolveSequenceId None ?nm ?g [])) = [1, 2, 3, 4, 5, 6, 7, 8, 9, 10, 11]"
    by (intro conjI)
  then show ?thesis
    by - (rule exI, assumption)
qed

text \<open>
  C8 (failure propagation). When a call of the fetcher rejects with \<open>e\<close>, that call is
  the last one of the run, the run itself fails with the same \<open>e\<close> (it does not
  return a value), and no page was asked for twice: neither the failing page nor
  a page before it was fetched again.
\<close>

theorem failure_propagation:
  assumes run: "resolveSequenceId sequenceId sequenceName getSequences w = (out, st)"
      and rejected: "(page, Inl e) \<in> set (calls st)"
  shows "(\<exists>earlier. calls st = earlier @ [(page, Inl e)] \<and> page \<notin> fst ` set earlier) \<and>
         out = Inl e \<and> distinct (map fst (calls st))"
proof -
  from rejected have "calls st \<noteq> []"
    by auto
  with resolveSequenceId_run [OF run] obtain t where
    tr: "trace getSequences t 1 (calls st) out"
    by blast
  from trace_rejected_last [OF tr rejected] obtain earlier where
    last: "calls st = earlier @ [(page, Inl e)]" and out: "out = Inl e"
    by blast
  from trace_pages [OF tr] have d: "distinct (map fst (calls st))"
    by simp
  with last have "page \<notin> fst ` set earlier"
    by auto
  with last out d show ?thesis
    by blast
qed

theorem failure_propagation_witness:
  "resolveSequenceId None (Some ''welcome'')
     (\<lambda>page requestedPages.
        (if page = 3 then Inl ''503 Service Unavailable''
         else Inr (Sequences [\<lparr>seq_id = ''x'', attributes = Some \<lparr>name = Some ''other''\<rparr>\<rparr>]),
         requestedPages @ [page])) [] =
     (Inl ''503 Service Unavailable'',
      \<lparr>world = [1, 2, 3],
       calls =
         [(1, Inr (Sequences [\<lparr>seq_id = ''x'', attributes = Some \<lparr>name = Some ''other''\<rparr>\<rparr>])),
          (2, Inr (Sequences [\<lparr>seq_id = ''x'', attributes = Some \<lparr>name = Some ''other''\<rparr>\<rparr>])),
          (3, Inl ''503 Service Unavailable'')]\<rparr>) \<and>
   distinct [1, 2, 3 :: nat]"
proof -
  let ?g = "\<lambda>page requestedPages.
        (if page = 3 then Inl ''503 Service Unavailable''
         else Inr (Sequences [\<lparr>seq_id = ''x'', attributes = Some \<lparr>name = Some ''other''\<rparr>\<rparr>]),
         requestedPages @ [page :: nat])"
  let ?st = "\<lparr>world = [1, 2, 3 :: nat],
       calls =
         [(1 :: nat, Inr (Sequences [\<lparr>seq_id = ''x'', attributes = Some \<lparr>name = Some ''other''\<rparr>\<rparr>])),
          (2, Inr (Sequences [\<lparr>seq_id = ''x'', attributes = Some \<lparr>name = Some ''other''\<rparr>\<rparr>])),
          (3, Inl ''503 Service Unavailable'')]\<rparr>"
  have run: "resolveSequenceId None (Some ''welcome'') ?g [] =
      (Inl ''503 Service Unavailable'', ?st)"
    by code_simp
  have rejected: "(3, Inl ''503 Service Unavailable'') \<in> set (calls ?st)"
    by simp
  from failure_propagation [OF run rejected] have "distinct (map fst (calls ?st))"
    by blast
  then have "distinct [1, 2, 3 :: nat]"
    by simp
  with run show ?thesis
    by (intro conjI)
qed

text \<open>
  C9 (determinism). With a deterministic fetcher, one whose answer for a page does not
  depend on the world it is called in, two calls of \<open>resolveSequenceId\<close> with the same
  \<open>sequenceId\<close> and \<open>sequenceName\<close> give the same result and the same sequence of calls
  of the fetcher, whatever world each call starts in; so also when the second call
  starts in the world the first one left. A resolution keeps nothing from one call
  to the next.
\<close>

theorem determinism:
  assumes det: "\<forall>page w w'. fst (getSequences page w) = fst (getSequences page w')"
  shows "fst (resolveSequenceId sequenceId sequenceName getSequences w2) =
           fst (resolveSequenceId sequenceId sequenceName getSequences w1) \<and>
         calls (snd (resolveSequenceId sequenceId sequenceName getSequences w2)) =
           calls (snd (resolveSequenceId sequenceId sequenceName getSequences w1)) \<and>
         fst (resolveSequenceId sequenceId sequenceName getSequences
                (world (snd (resolveSequenceId sequenceId sequenceName getSequences w1)))) =
           fst (resolveSequenceId sequenceId sequenceName getSequences w1) \<and>
         calls (snd (resolveSequenceId sequenceId sequenceName getSequences
                (world (snd (resolveSequenceId sequenceId sequenceName getSequences w1))))) =
           calls (snd (resolveSequenceId sequenceId sequenceName getSequences w1))"
proof -
  have same: "fst (resolveSequenceId sequenceId sequenceName getSequences b) =
                fst (resolveSequenceId sequenceId sequenceName getSequences a) \<and>
              calls (snd (resolveSequenceId sequenceId sequenceName getSequences b)) =
                calls (snd (resolveSequenceId sequenceId sequenceName getSequences a))" for a b
  proof (cases "sequenceId = None \<or> (\<exists>s. sequenceId = Some s \<and> trim s = [])")
    case False
    then obtain s where "sequenceId = Some s" "trim s \<noteq> []"
      by (cases sequenceId) auto
    then show ?thesis
      by (simp add: resolveSequenceId_fast)
  next
    case blank: True
    show ?thesis
    proof (cases "normalizeName sequenceName")
      case None
      with blank show ?thesis
        by (simp add: resolveSequenceId_by_name resolveByName_blank)
    next
      case (Some t)
      obtain oa sa where a: "searchPages getSequences t 1 \<lparr>world = a, calls = []\<rparr> = (oa, sa)"
        by (cases "searchPages getSequences t 1 \<lparr>world = a, calls = []\<rparr>")
      obtain ob sb where b: "searchPages getSequences t 1 \<lparr>world = b, calls = []\<rparr> = (ob, sb)"
        by (cases "searchPages getSequences t 1 \<lparr>world = b, calls = []\<rparr>")
      from searchPages_trace [OF a] have ta: "trace getSequences t 1 (calls sa) oa"
        by simp
      from searchPages_trace [OF b] have tb: "trace getSequences t 1 (calls sb) ob"
        by simp
      from trace_determ [OF ta tb det] have "calls sb = calls sa \<and> ob = oa" .
      with blank Some a b show ?thesis
        by (simp add: resolveSequenceId_by_name resolveByName_search)
    qed
  qed
  from same [of w2 w1]
    same [of "world (snd (resolveSequenceId sequenceId sequenceName getSequences w1))" w1]
  show ?thesis
    by blast
qed

theorem determinism_witness:
  "fst (resolveSequenceId None (Some ''welcome flow'')
          (buildGetSequencesFromPages createNearMatchThenExactPages :: (nat list, js_error) GetSequences)
          [1, 2]) =
     fst (resolveSequenceId None (Some ''welcome flow'')
          (buildGetSequencesFromPages createNearMatchThenExactPages :: (nat list, js_error) GetSequences)
          []) \<and>
   calls (snd (resolveSequenceId None (Some ''welcome flow'')
          (buildGetSequencesFromPages createNearMatchThenExactPages :: (nat list, js_error) GetSequences)
          [1, 2])) =
     calls (snd (resolveSequenceId None (Some ''welcome flow'')
          (buildGetSequencesFromPages createNearMatchThenExactPages :: (nat list, js_error) GetSequences)
          [])) \<and>
   world (snd (resolveSequenceId None (Some ''welcome flow'')
          (buildGetSequencesFromPages createNearMatchThenExactPages :: (nat list, js_error) GetSequences)
          [])) = [1, 2] \<and>
   world (snd (resolveSequenceId None (Some ''welcome flow'')
          (buildGetSequencesFromPages createNearMatchThenExactPages :: (nat list, js_error) GetSequences)
          [1, 2])) = [1, 2, 1, 2]"
proof -
  let ?g = "buildGetSequencesFromPages createNearMatchThenExactPages :: (nat list, js_error) GetSequences"
  have det: "\<forall>page w w'. fst (?g page w) = fst (?g page w')"
    by (simp add: buildGetSequencesFromPages_def)
  have w1: "world (snd (resolveSequenceId None (Some ''welcome flow'') ?g [])) = [1, 2]"
    by code_simp
  have w2: "world (snd (resolveSequenceId None (Some ''welcome flow'') ?g [1, 2])) = [1, 2, 1, 2]"
    by code_simp
  from determinism [OF det, of None "Some ''welcome flow''" "[1, 2]" "[]"] w1 w2
  show ?thesis
    by blast
qed

text \<open>
  C10 (a white-space-only id is an absent id). When \<open>sequenceId\<close> is made of white space
  only, \<open>resolveSequenceId\<close> gives the same result, the same calls of the fetcher and
  the same final world as with no \<open>sequenceId\<close> at all: it takes the search by name.
  The id given is not what the fast path would return: every id the run returns is
  the id of an entity of a fetched page whose normalized name is the normalized
  \<open>sequenceName\<close>.
\<close>

theorem blank_id_as_absent:
  assumes "list_all isWhiteSpace s"
  shows "resolveSequenceId (Some s) sequenceName getSequences w =
           resolveSequenceId None sequenceName getSequences w \<and>
         resolveSequenceId (Some s) sequenceName getSequences w =
           resolveByName sequenceName getSequences \<lparr>world = w, calls = []\<rparr> \<and>
         (\<forall>v. fst (resolveSequenceId (Some s) sequenceName getSequences w) = Inr (Some v) \<longrightarrow>
            (\<exists>p xs m.
               (p, Inr (Sequences xs)) \<in>
                 set (calls (snd (resolveSequenceId (Some s) sequenceName getSequences w))) \<and>
               m \<in> set xs \<and> seq_id m = v \<and>
               normalizeName (attributes_name m) = normalizeName sequenceName))"
proof -
  from assms have blank: "trim s = []"
    by (simp add: trim_eq_Nil_iff list_all_iff)
  then have by_name: "resolveSequenceId (Some s) sequenceName getSequences w =
      resolveByName sequenceName getSequences \<lparr>world = w, calls = []\<rparr>"
    by (simp add: resolveSequenceId_by_name)
  have absent: "resolveSequenceId None sequenceName getSequences w =
      resolveByName sequenceName getSequences \<lparr>world = w, calls = []\<rparr>"
    by (simp add: resolveSequenceId_by_name)
  have origin: "\<exists>p xs m.
      (p, Inr (Sequences xs)) \<in>
        set (calls (snd (resolveSequenceId (Some s) sequenceName getSequences w))) \<and>
      m \<in> set xs \<and> seq_id m = v \<and>
      normalizeName (attributes_name m) = normalizeName sequenceName"
    if v: "fst (resolveSequenceId (Some s) sequenceName getSequences w) = Inr (Some v)" for v
  proof -
    obtain out st where run: "resolveSequenceId (Some s) sequenceName getSequences w = (out, st)"
      by (cases "resolveSequenceId (Some s) sequenceName getSequences w")
    with v have out: "out = Inr (Some v)"
      by simp
    show ?thesis
    proof (cases "normalizeName sequenceName")
      case None
      with by_name run out show ?thesis
        by (simp add: resolveByName_blank)
    next
      case (Some t)
      with by_name run have "searchPages getSequences t 1 \<lparr>world = w, calls = []\<rparr> = (out, st)"
        by (simp add: resolveByName_search)
      then have "trace getSequences t 1 (calls st) out"
        by (auto dest: searchPages_trace)
      from trace_provenance [OF this out] obtain p xs m where
        "(p, Inr (Sequences xs)) \<in> set (calls st)" "m \<in> set xs" "seq_id m = v" "nameMatches t m"
        by blast
      with Some run show ?thesis
        by (auto simp: nameMatches_def)
    qed
  qed
  from by_name absent origin show ?thesis
    by simp
qed

theorem blank_id_as_absent_witness:
  "list_all isWhiteSpace ''   '' \<and>
   resolveSequenceId (Some ''   '') (Some ''welcome flow'')
       (buildGetSequencesFromPages createNearMatchThenExactPages :: (nat list, js_error) GetSequences) [] =
     resolveSequenceId None (Some ''welcome flow'')
       (buildGetSequencesFromPages createNearMatchThenExactPages) [] \<and>
   fst (resolveSequenceId (Some ''   '') (Some ''welcome flow'')
       (buildGetSequencesFromPages createNearMatchThenExactPages :: (nat list, js_error) GetSequences) []) =
     Inr (Some ''sequence_exact_match'') \<and>
   world (snd (resolveSequenceId (Some ''   '') (Some ''welcome flow'')
       (buildGetSequencesFromPages createNearMatchThenExactPages :: (nat list, js_error) GetSequences) [])) =
     [1, 2]"
proof -
  let ?g = "buildGetSequencesFromPages createNearMatchThenExactPages :: (nat list, js_error) GetSequences"
  have ws: "list_all isWhiteSpace ''   ''"
    by code_simp
  have absent: "resolveSequenceId None (Some ''welcome flow'') ?g [] =
      (Inr (Some ''sequence_exact_match''),
       \<lparr>world = [1, 2],
        calls =
          [(1, Inr (Sequences
                  [\<lparr>seq_id = ''sequence_near_match'',
                    attributes = Some \<lparr>name = Some ''Welcome Flow Extended''\<rparr>\<rparr>])),
           (2, Inr (Sequences
                  [\<lparr>seq_id = ''sequence_exact_match'',
                    attributes = Some \<lparr>name = Some ''  WELCOME FLOW  ''\<rparr>\<rparr>]))]\<rparr>)"
    by code_simp
  from blank_id_as_absent [OF ws, of "Some ''welcome flow''" ?g "[]"]
  have same: "resolveSequenceId (Some ''   '') (Some ''welcome flow'') ?g [] =
      resolveSequenceId None (Some ''welcome flow'') ?g []"
    by blast
  from same absent have
    "fst (resolveSequenceId (Some ''   '') (Some ''welcome flow'') ?g []) =
       Inr (Some ''sequence_exact_match'')"
    "world (snd (resolveSequenceId (Some ''   '') (Some ''welcome flow'') ?g [])) = [1, 2]"
    by simp_all
  with ws same show ?thesis
    by (intro conjI)
qed

end
